theory Spec2Isabelle
  imports Main "HOL-Library.AList"
begin

section \<open>Permission resolver\<close>

text \<open>
  Storage-level permission identifiers are strings (Django codenames). The API-level
  permissions and the two tables \<open>DB_TO_API_PERMISSION_MAPPING\<close> and
  \<open>ENROLLMENT_PERMISSIONS_LIST\<close> are declared outside \<open>core/utils.py\<close>; the functions
  below take them as parameters. The permission store is read through the two views the
  code uses: \<open>get_perms(user, obj)\<close> and \<open>user.get_all_permissions()\<close>.
\<close>

type_synonym db_perm = string

record organization =
  organization_key :: string

record program =
  program_key :: string
  managing_organization :: organization
  is_enrollment_enabled :: bool

datatype obj = ProgramObj program | OrganizationObj organization

record user =
  get_perms :: "obj \<Rightarrow> db_perm list"
  get_all_permissions :: "db_perm list"

text \<open>
  \<^verbatim>\<open>
  user_object_permissions = get_perms(user, obj) if obj is not None else []
  user_global_permissions = list(user.get_all_permissions())
  user_api_permissions = set()
  for db_perm in user_object_permissions + user_global_permissions:
      if db_perm in DB_TO_API_PERMISSION_MAPPING:
          user_api_permissions.add(DB_TO_API_PERMISSION_MAPPING[db_perm])
  return user_api_permissions
  \<close>
\<close>

definition add_api_permission :: "(db_perm \<rightharpoonup> 'p) \<Rightarrow> db_perm \<Rightarrow> 'p set \<Rightarrow> 'p set" where
  "add_api_permission DB_TO_API_PERMISSION_MAPPING db_perm user_api_permissions =
     (case DB_TO_API_PERMISSION_MAPPING db_perm of
        Some api_perm \<Rightarrow> insert api_perm user_api_permissions
      | None \<Rightarrow> user_api_permissions)"

definition get_user_api_permissions ::
  "(db_perm \<rightharpoonup> 'p) \<Rightarrow> user \<Rightarrow> obj option \<Rightarrow> 'p set" where
  "get_user_api_permissions DB_TO_API_PERMISSION_MAPPING usr ob =
     (let user_object_permissions = (case ob of Some x \<Rightarrow> get_perms usr x | None \<Rightarrow> []);
          user_global_permissions = get_all_permissions usr
      in fold (add_api_permission DB_TO_API_PERMISSION_MAPPING)
           (user_object_permissions @ user_global_permissions) {})"

definition remove_permissions_if_enrollments_disabled ::
  "'p list \<Rightarrow> program \<Rightarrow> 'p set \<Rightarrow> 'p set" where
  "remove_permissions_if_enrollments_disabled ENROLLMENT_PERMISSIONS_LIST prog user_permissions =
     (if \<not> is_enrollment_enabled prog
      then user_permissions - set ENROLLMENT_PERMISSIONS_LIST
      else user_permissions)"

definition get_effective_user_program_api_permissions ::
  "(db_perm \<rightharpoonup> 'p) \<Rightarrow> 'p list \<Rightarrow> user \<Rightarrow> program \<Rightarrow> 'p set" where
  "get_effective_user_program_api_permissions DB_TO_API_PERMISSION_MAPPING
       ENROLLMENT_PERMISSIONS_LIST usr prog =
     (let user_permissions =
            get_user_api_permissions DB_TO_API_PERMISSION_MAPPING usr (Some (ProgramObj prog))
          \<union> get_user_api_permissions DB_TO_API_PERMISSION_MAPPING usr
              (Some (OrganizationObj (managing_organization prog)))
      in remove_permissions_if_enrollments_disabled ENROLLMENT_PERMISSIONS_LIST prog
           user_permissions)"

section \<open>Text\<close>

text \<open>
  A Python \<open>str\<close> is modelled as a \<open>string\<close> whose characters are the code points
  U+0000 to U+00FF; texts with code points beyond that range are outside the model. On
  this range \<open>str.lower\<close> works character by character, \<open>str.strip\<close> removes the
  characters for which \<open>str.isspace\<close> holds, and \<open>str.splitlines\<close> breaks at the line
  boundaries listed below. Beyond the range \<open>str.splitlines\<close> also breaks at U+2028
  and U+2029 and \<open>str.isspace\<close> holds of further characters; a statement about all
  texts is therefore a statement about the texts of this range.
\<close>

abbreviation LF :: char where "LF \<equiv> CHR 0x0A"
abbreviation CR :: char where "CR \<equiv> CHR 0x0D"

definition isspace :: "char \<Rightarrow> bool" where
  "isspace c \<longleftrightarrow>
     c \<in> {CHR 0x09, LF, CHR 0x0B, CHR 0x0C, CR, CHR 0x1C, CHR 0x1D, CHR 0x1E, CHR 0x1F,
          CHR 0x20, CHR 0x85, CHR 0xA0}"

definition strip :: "string \<Rightarrow> string" where
  "strip s = rev (dropWhile isspace (rev (dropWhile isspace s)))"

definition to_lower :: "char \<Rightarrow> char" where
  "to_lower c =
     (let n = (of_char c :: nat)
      in if (0x41 \<le> n \<and> n \<le> 0x5A) \<or> (0xC0 \<le> n \<and> n \<le> 0xDE \<and> n \<noteq> 0xD7)
         then char_of (n + 0x20) else c)"

definition lower :: "string \<Rightarrow> string" where
  "lower s = map to_lower s"

definition is_linebreak :: "char \<Rightarrow> bool" where
  "is_linebreak c \<longleftrightarrow>
     c \<in> {LF, CR, CHR 0x0B, CHR 0x0C, CHR 0x1C, CHR 0x1D, CHR 0x1E, CHR 0x85}"

text \<open>
  \<open>str.splitlines()\<close> without \<open>keepends\<close>: \<open>cur\<close> is the line read so far. A line
  break ends the current line (CR LF counts as one break); text after the last break is
  a line only when it is not empty.
\<close>

fun splitlines_from :: "string \<Rightarrow> string \<Rightarrow> string list" where
  "splitlines_from cur [] = (if cur = [] then [] else [cur])"
| "splitlines_from cur (c # cs) =
     (if c = CR then
        (case cs of
           d # ds \<Rightarrow> if d = LF then cur # splitlines_from [] ds
                     else cur # splitlines_from [] cs
         | [] \<Rightarrow> cur # splitlines_from [] cs)
      else if is_linebreak c then cur # splitlines_from [] cs
      else splitlines_from (cur @ [c]) cs)"

definition splitlines :: "string \<Rightarrow> string list" where
  "splitlines s = splitlines_from [] s"

section \<open>Errors\<close>

text \<open>
  \<open>ValidationError\<close> carries one of the two messages of \<open>load_records_from_csv\<close>:
  \<open>Missing_headers S\<close> stands for \<open>"CSV is missing headers [...]"\<close> and
  \<open>Missing_data n S\<close> for \<open>"CSV is missing data at row #n. Required fields are [...]."\<close>,
  where the bracket holds the elements of the Python set \<open>S\<close> joined by \<open>", "\<close>. The
  order in which a set is iterated is not fixed by Python, so the model keeps the set.
  The other constructors are the faults that are not the domain error: \<open>TypeError\<close>
  (iterating \<open>None\<close>), \<open>AttributeError\<close> (\<open>None.strip()\<close>) and \<open>csv.Error\<close>.
\<close>

datatype message = Missing_headers "string set" | Missing_data nat "string set"

datatype error = ValidationError message | TypeError | AttributeError | CsvError

section \<open>The csv reader\<close>

text \<open>
  The parser of \<open>csv.reader\<close> for the dialect \<open>excel\<close>, which is what
  \<open>csv.DictReader(f)\<close> uses: delimiter \<open>,\<close>, quotechar \<open>"\<close>, doublequote on, no
  escapechar, skipinitialspace off, strict off, quoting minimal. The states that only
  an escapechar reaches are left out. \<open>None\<close> is the end-of-line marker the reader
  feeds to the parser after the characters of each line. The module is the one of
  CPython 3.11 and later, where the character NUL is an ordinary character; a field may
  hold at most \<open>csv.field_size_limit()\<close> characters, 131072 unless changed.
\<close>

abbreviation delimiter :: char where "delimiter \<equiv> CHR '',''"
abbreviation quotechar :: char where "quotechar \<equiv> CHR 0x22"
abbreviation EOL :: "char option" where "EOL \<equiv> None"

definition lineterminator :: string where
  "lineterminator = [CR, LF]"

definition field_limit :: nat where
  "field_limit = 131072"

datatype parser_state =
  START_RECORD | START_FIELD | IN_FIELD | IN_QUOTED_FIELD | QUOTE_IN_QUOTED_FIELD | EAT_CRNL

record reader_obj =
  state :: parser_state
  fieldlist :: "string list"  \<comment> \<open>\<open>self->fields\<close>\<close>
  field :: string

definition parse_reset :: reader_obj where
  "parse_reset = \<lparr>state = START_RECORD, fieldlist = [], field = []\<rparr>"

definition parse_save_field :: "reader_obj \<Rightarrow> reader_obj" where
  "parse_save_field self = self\<lparr>fieldlist := fieldlist self @ [field self], field := []\<rparr>"

definition parse_add_char :: "reader_obj \<Rightarrow> char \<Rightarrow> error + reader_obj" where
  "parse_add_char self c =
     (if length (field self) \<ge> field_limit then Inl CsvError
      else Inr (self\<lparr>field := field self @ [c]\<rparr>))"

definition set_state :: "parser_state \<Rightarrow> error + reader_obj \<Rightarrow> error + reader_obj" where
  "set_state st r = (case r of Inl e \<Rightarrow> Inl e | Inr self \<Rightarrow> Inr (self\<lparr>state := st\<rparr>))"

definition case_START_FIELD :: "reader_obj \<Rightarrow> char option \<Rightarrow> error + reader_obj" where
  "case_START_FIELD self c =
     (case c of
        None \<Rightarrow> Inr ((parse_save_field self)\<lparr>state := START_RECORD\<rparr>)
      | Some ch \<Rightarrow>
          if ch = LF \<or> ch = CR then Inr ((parse_save_field self)\<lparr>state := EAT_CRNL\<rparr>)
          else if ch = quotechar then Inr (self\<lparr>state := IN_QUOTED_FIELD\<rparr>)
          else if ch = delimiter then Inr (parse_save_field self)
          else set_state IN_FIELD (parse_add_char self ch))"

definition parse_process_char :: "reader_obj \<Rightarrow> char option \<Rightarrow> error + reader_obj" where
  "parse_process_char self c =
     (case state self of
        START_RECORD \<Rightarrow>
          (case c of
             None \<Rightarrow> Inr self
           | Some ch \<Rightarrow>
               if ch = LF \<or> ch = CR then Inr (self\<lparr>state := EAT_CRNL\<rparr>)
               else case_START_FIELD (self\<lparr>state := START_FIELD\<rparr>) c)
      | START_FIELD \<Rightarrow> case_START_FIELD self c
      | IN_FIELD \<Rightarrow>
          (case c of
             None \<Rightarrow> Inr ((parse_save_field self)\<lparr>state := START_RECORD\<rparr>)
           | Some ch \<Rightarrow>
               if ch = LF \<or> ch = CR then Inr ((parse_save_field self)\<lparr>state := EAT_CRNL\<rparr>)
               else if ch = delimiter then Inr ((parse_save_field self)\<lparr>state := START_FIELD\<rparr>)
               else parse_add_char self ch)
      | IN_QUOTED_FIELD \<Rightarrow>
          (case c of
             None \<Rightarrow> Inr self
           | Some ch \<Rightarrow>
               if ch = quotechar then Inr (self\<lparr>state := QUOTE_IN_QUOTED_FIELD\<rparr>)
               else parse_add_char self ch)
      | QUOTE_IN_QUOTED_FIELD \<Rightarrow>
          (case c of
             None \<Rightarrow> Inr ((parse_save_field self)\<lparr>state := START_RECORD\<rparr>)
           | Some ch \<Rightarrow>
               if ch = quotechar then set_state IN_QUOTED_FIELD (parse_add_char self ch)
               else if ch = delimiter then Inr ((parse_save_field self)\<lparr>state := START_FIELD\<rparr>)
               else if ch = LF \<or> ch = CR then Inr ((parse_save_field self)\<lparr>state := EAT_CRNL\<rparr>)
               else set_state IN_FIELD (parse_add_char self ch))
      | EAT_CRNL \<Rightarrow>
          (case c of
             None \<Rightarrow> Inr (self\<lparr>state := START_RECORD\<rparr>)
           | Some ch \<Rightarrow> if ch = LF \<or> ch = CR then Inr self else Inl CsvError))"

text \<open>The characters of one line, in order; the first error stops the line.\<close>

fun parse_line :: "reader_obj \<Rightarrow> string \<Rightarrow> error + reader_obj" where
  "parse_line self [] = Inr self"
| "parse_line self (c # cs) =
     (case parse_process_char self (Some c) of
        Inl e \<Rightarrow> Inl e
      | Inr self' \<Rightarrow> parse_line self' cs)"

text \<open>
  What \<open>next\<close> on an iterator gives: the iterator is exhausted, an exception leaves the
  call, or a value comes back together with the iterator's new state.
\<close>

datatype ('a, 's) iter = StopIteration | Raise error | Yield 'a 's

text \<open>
  The loop of \<open>Reader_iternext\<close> over the lines still to be read. At the end of the
  input a record that is still open (a pending field, or an open quote) is returned as
  it stands, since the dialect is not strict.
\<close>

fun Reader_iternext_loop :: "reader_obj \<Rightarrow> string list \<Rightarrow> (string list, string list) iter" where
  "Reader_iternext_loop self [] =
     (if field self \<noteq> [] \<or> state self = IN_QUOTED_FIELD
      then Yield (fieldlist (parse_save_field self)) []
      else StopIteration)"
| "Reader_iternext_loop self (lineobj # input_iter) =
     (case parse_line self lineobj of
        Inl e \<Rightarrow> Raise e
      | Inr self1 \<Rightarrow>
          (case parse_process_char self1 EOL of
             Inl e \<Rightarrow> Raise e
           | Inr self2 \<Rightarrow>
               if state self2 \<noteq> START_RECORD then Reader_iternext_loop self2 input_iter
               else Yield (fieldlist self2) input_iter))"

definition Reader_iternext :: "string list \<Rightarrow> (string list, string list) iter" where
  "Reader_iternext input_iter = Reader_iternext_loop parse_reset input_iter"

lemma Reader_iternext_loop_consumes:
  "Reader_iternext_loop self ls = Yield row rest \<Longrightarrow>
     (ls = [] \<and> rest = []) \<or> length rest < length ls"
proof (induction ls arbitrary: self)
  case Nil
  then show ?case by (simp split: if_splits)
next
  case (Cons l ls)
  from Cons.prems obtain self1 self2 where
    step: "parse_line self l = Inr self1" "parse_process_char self1 EOL = Inr self2"
    by (auto split: sum.splits)
  show ?case
  proof (cases "state self2 = START_RECORD")
    case True
    with Cons.prems step show ?thesis by simp
  next
    case False
    with Cons.prems step have "Reader_iternext_loop self2 ls = Yield row rest" by simp
    from Cons.IH [OF this] show ?thesis by auto
  qed
qed

section \<open>The dictionary reader\<close>

text \<open>
  A row of \<open>csv.DictReader\<close> is a dictionary. Its keys are the field names and, for a
  row with more cells than field names, the \<open>restkey\<close>, which is \<open>None\<close>. Its values
  are cells, the \<open>restval\<close> \<open>None\<close> for the field names a short row does not reach,
  and under the \<open>restkey\<close> the list of the cells left over. A dictionary is an
  association list with distinct keys in insertion order: \<open>AList.update\<close> keeps the
  position of a key that is already there, as assignment to a Python dictionary does.
\<close>

datatype cell = Text string | Restval | Rest "string list"

type_synonym row = "(string option \<times> cell) list"

type_synonym loaded_record = "(string \<times> string) list"

text \<open>
  The object state of a \<open>DictReader\<close>: the attribute \<open>_fieldnames\<close> and the lines its
  \<open>csv.reader\<close> has not read yet. The attribute \<open>line_num\<close> is not kept: it is zero
  exactly as long as no line has been read, that is as long as \<open>_fieldnames\<close> is
  \<open>None\<close>.
\<close>

record DictReader =
  cached_fieldnames :: "string list option"  \<comment> \<open>\<open>self._fieldnames\<close>\<close>
  reader :: "string list"  \<comment> \<open>the input of \<open>self.reader\<close>\<close>

text \<open>
  The property \<open>DictReader.fieldnames\<close>: the first access reads the header record;
  \<open>StopIteration\<close> is swallowed and leaves \<open>None\<close>.
\<close>

definition DictReader_fieldnames :: "DictReader \<Rightarrow> error + (string list option \<times> DictReader)" where
  "DictReader_fieldnames self =
     (if cached_fieldnames self = None then
        (case Reader_iternext (reader self) of
           Yield header rest \<Rightarrow>
             Inr (Some header, self\<lparr>cached_fieldnames := Some header, reader := rest\<rparr>)
         | StopIteration \<Rightarrow> Inr (None, self)
         | Raise e \<Rightarrow> Inl e)
      else Inr (cached_fieldnames self, self))"

text \<open>
  The property \<open>StrippedLowercaseFieldNamesDictReader.fieldnames\<close>:
  \<^verbatim>\<open>
  raw_field_names = super().fieldnames
  return [field_name.strip().lower() for field_name in raw_field_names]
  \<close>
  Iterating \<open>None\<close> raises \<open>TypeError\<close>.
\<close>

definition fieldnames :: "DictReader \<Rightarrow> error + (string list \<times> DictReader)" where
  "fieldnames self =
     (case DictReader_fieldnames self of
        Inl e \<Rightarrow> Inl e
      | Inr (raw, self') \<Rightarrow>
          (case raw of
             None \<Rightarrow> Inl TypeError
           | Some raw_field_names \<Rightarrow>
               Inr (map (\<lambda>field_name. lower (strip field_name)) raw_field_names, self')))"

lemma Reader_iternext_consumes:
  "Reader_iternext ls = Yield row rest \<Longrightarrow> length rest < length ls"
proof -
  assume y: "Reader_iternext ls = Yield row rest"
  then have "ls \<noteq> []"
    by (auto simp: Reader_iternext_def parse_reset_def)
  with Reader_iternext_loop_consumes [of parse_reset ls row rest] y show ?thesis
    by (simp add: Reader_iternext_def)
qed

text \<open>
  \<^verbatim>\<open>
  row = next(self.reader)
  while row == []:
      row = next(self.reader)
  \<close>
\<close>

function next_row :: "string list \<Rightarrow> (string list, string list) iter" where
  "next_row input_iter =
     (case Reader_iternext input_iter of
        Yield r rest \<Rightarrow> if r = [] then next_row rest else Yield r rest
      | StopIteration \<Rightarrow> StopIteration
      | Raise e \<Rightarrow> Raise e)"
  by pat_completeness auto
termination
  by (relation "measure length") (auto dest: Reader_iternext_consumes)

text \<open>
  \<open>DictReader.__next__\<close>, where every \<open>self.fieldnames\<close> goes through the property of
  the subclass; \<open>row_dict\<close> is the dictionary built from the field names and the row:
  \<^verbatim>\<open>
  if self.line_num == 0:
      self.fieldnames
  row = next(self.reader)
  while row == []:
      row = next(self.reader)
  d = dict(zip(self.fieldnames, row))
  lf = len(self.fieldnames)
  lr = len(row)
  if lf < lr:
      d[self.restkey] = row[lf:]
  elif lf > lr:
      for key in self.fieldnames[lr:]:
          d[key] = self.restval
  return d
  \<close>
\<close>

definition dict_zip :: "string list \<Rightarrow> string list \<Rightarrow> row" where
  "dict_zip names cells = AList.updates (map Some names) (map Text cells) []"

definition row_dict :: "string list \<Rightarrow> string list \<Rightarrow> row" where
  "row_dict names r =
     (let d = dict_zip names r;
          lf = length names;
          lr = length r
      in if lf < lr then AList.update None (Rest (drop lf r)) d
         else if lf > lr then fold (\<lambda>key. AList.update (Some key) Restval) (drop lr names) d
         else d)"

definition DictReader_next :: "DictReader \<Rightarrow> (row, DictReader) iter" where
  "DictReader_next self =
     (case (if cached_fieldnames self = None then fieldnames self else Inr ([], self)) of
        Inl e \<Rightarrow> Raise e
      | Inr (_, self1) \<Rightarrow>
          (case next_row (reader self1) of
             StopIteration \<Rightarrow> StopIteration
           | Raise e \<Rightarrow> Raise e
           | Yield r rest \<Rightarrow>
               (case fieldnames (self1\<lparr>reader := rest\<rparr>) of
                  Inl e \<Rightarrow> Raise e
                | Inr (names, self2) \<Rightarrow> Yield (row_dict names r) self2)))"

section \<open>Loading records\<close>

text \<open>
  The truth value of \<open>row[field]\<close>. A key that is missing would raise \<open>KeyError\<close>;
  in \<open>load_records_from_csv\<close> the required fields have passed the header check and
  every field name is a key of every row (lemma \<open>required_fields_are_keys\<close> below), so
  that branch is never taken and the model has no \<open>KeyError\<close>.
\<close>

fun truthy :: "cell option \<Rightarrow> bool" where
  "truthy (Some (Text s)) = (s \<noteq> [])"
| "truthy (Some Restval) = False"
| "truthy (Some (Rest cells)) = (cells \<noteq> [])"
| "truthy None = False"

text \<open>
  \<^verbatim>\<open>
  stripped_row = {
      field: val.strip()
      for field, val in row.items()
      if field in field_names  # Drop not-requested fields.
  }
  \<close>
  \<open>field_names\<close> is a set of strings, so the key \<open>None\<close> is never in it. A value
  that is not a string has no \<open>strip\<close>.
\<close>

fun stripped_row :: "string set \<Rightarrow> row \<Rightarrow> error + loaded_record" where
  "stripped_row field_names [] = Inr []"
| "stripped_row field_names ((None, val) # items) = stripped_row field_names items"
| "stripped_row field_names ((Some fld, val) # items) =
     (if fld \<in> field_names then
        (case val of
           Text s \<Rightarrow>
             (case stripped_row field_names items of
                Inl e \<Rightarrow> Inl e
              | Inr rec \<Rightarrow> Inr ((fld, strip s) # rec))
         | _ \<Rightarrow> Inl AttributeError)
      else stripped_row field_names items)"

lemma next_row_consumes:
  "next_row ls = Yield r rest \<Longrightarrow> length rest < length ls"
proof (induction ls rule: next_row.induct)
  case (1 ls)
  show ?case
  proof (cases "Reader_iternext ls")
    case (Yield r' rest')
    show ?thesis
    proof (cases "r' = []")
      case True
      with "1.prems" Yield have "next_row rest' = Yield r rest" by simp
      from "1.IH" [OF Yield True this] Reader_iternext_consumes [OF Yield]
      show ?thesis by simp
    next
      case False
      with "1.prems" Yield Reader_iternext_consumes [OF Yield] show ?thesis by simp
    qed
  qed (use "1.prems" in simp_all)
qed

lemma DictReader_fieldnames_reader:
  "DictReader_fieldnames self = Inr (raw, self') \<Longrightarrow>
     length (reader self') \<le> length (reader self) \<and> cached_fieldnames self' = raw"
  by (auto simp: DictReader_fieldnames_def split: if_splits iter.splits
        dest!: Reader_iternext_consumes)

lemma fieldnames_reader:
  "fieldnames self = Inr (names, self') \<Longrightarrow>
     length (reader self') \<le> length (reader self) \<and> cached_fieldnames self' \<noteq> None"
  by (auto simp: fieldnames_def split: sum.splits option.splits
        dest!: DictReader_fieldnames_reader)

lemma DictReader_next_consumes:
  assumes "DictReader_next self = Yield d self'"
  shows "length (reader self') < length (reader self)"
proof -
  obtain x self1 where
    a: "(if cached_fieldnames self = None then fieldnames self else Inr ([], self)) = Inr (x, self1)"
    using assms unfolding DictReader_next_def
    by (cases "if cached_fieldnames self = None then fieldnames self else Inr ([], self)") auto
  obtain r rest where b: "next_row (reader self1) = Yield r rest"
    using assms a unfolding DictReader_next_def
    by (cases "next_row (reader self1)") simp_all
  obtain names self2 where c: "fieldnames (self1\<lparr>reader := rest\<rparr>) = Inr (names, self2)"
    using assms a b unfolding DictReader_next_def
    by (cases "fieldnames (self1\<lparr>reader := rest\<rparr>)") auto
  have s2: "self2 = self'"
    using assms a b c unfolding DictReader_next_def by simp
  from a have "length (reader self1) \<le> length (reader self)"
    by (auto split: if_splits dest: fieldnames_reader)
  moreover from b have "length rest < length (reader self1)"
    by (rule next_row_consumes)
  moreover from c s2 have "length (reader self') \<le> length rest"
    by (auto dest: fieldnames_reader)
  ultimately show ?thesis by simp
qed

text \<open>
  The loop of \<open>load_records_from_csv\<close>; \<open>n\<close> is the counter of \<open>enumerate(reader, 1)\<close>.
  \<^verbatim>\<open>
  for n, row in enumerate(reader, 1):
      if None in row or not all(row[field] for field in required_fields):
          raise ValidationError(
              "CSV is missing data at row #{}. Required fields are [{}].".format(
                  n, ", ".join(field_names)))
      stripped_row = {...}
      records.append(stripped_row)
  return records
  \<close>
\<close>

function load_rows ::
  "string set \<Rightarrow> string set \<Rightarrow> nat \<Rightarrow> DictReader \<Rightarrow> loaded_record list \<Rightarrow> error + loaded_record list" where
  "load_rows field_names required_fields n rdr records =
     (case DictReader_next rdr of
        StopIteration \<Rightarrow> Inr records
      | Raise e \<Rightarrow> Inl e
      | Yield r rdr' \<Rightarrow>
          if None \<in> fst ` set r \<or> \<not> (\<forall>fld \<in> required_fields. truthy (map_of r (Some fld)))
          then Inl (ValidationError (Missing_data n field_names))
          else (case stripped_row field_names r of
                  Inl e \<Rightarrow> Inl e
                | Inr stripped \<Rightarrow>
                    load_rows field_names required_fields (n + 1) rdr' (records @ [stripped])))"
  by pat_completeness auto
termination
  by (relation "measure (\<lambda>(field_names, required_fields, n, rdr, records). length (reader rdr))")
     (auto dest: DictReader_next_consumes)

text \<open>
  \<^verbatim>\<open>
  row_iter = csv_string.splitlines()
  reader = StrippedLowercaseFieldNamesDictReader(row_iter)
  required_fields = field_names - set(optional_fields)
  missing_fields = required_fields - set(reader.fieldnames)
  if missing_fields:
      raise ValidationError(
          "CSV is missing headers [{}]".format(", ".join(missing_fields)))
  records = []
  for n, row in enumerate(reader, 1): ...
  \<close>
\<close>

definition load_records_from_csv ::
  "string \<Rightarrow> string set \<Rightarrow> string set \<Rightarrow> error + loaded_record list" where
  "load_records_from_csv csv_string field_names optional_fields =
     (let row_iter = splitlines csv_string;
          rdr = \<lparr>cached_fieldnames = None, reader = row_iter\<rparr>;
          required_fields = field_names - optional_fields
      in case fieldnames rdr of
           Inl e \<Rightarrow> Inl e
         | Inr (names, rdr') \<Rightarrow>
             let missing_fields = required_fields - set names
             in if missing_fields \<noteq> {}
                then Inl (ValidationError (Missing_headers missing_fields))
                else load_rows field_names required_fields 1 rdr' [])"

declare next_row.simps [simp del]
declare load_rows.simps [simp del]

section \<open>Notions for the statements about the loader\<close>

text \<open>
  The data rows of a text whose header has been read: the records that the loop of
  \<open>load_records_from_csv\<close> gets from the reader, blank lines skipped, up to the end of
  the input (or to the first error of the parser).
\<close>

function data_rows :: "string list \<Rightarrow> string list list" where
  "data_rows input_iter =
     (case next_row input_iter of
        Yield r rest \<Rightarrow> r # data_rows rest
      | StopIteration \<Rightarrow> []
      | Raise e \<Rightarrow> [])"
  by pat_completeness auto
termination
  by (relation "measure length") (auto dest: next_row_consumes)

declare data_rows.simps [simp del]

text \<open>
  A row passes the check of the loop when the guard of its \<open>if\<close> is false: the row's
  dictionary has no key \<open>None\<close> and every required field has a true value.
\<close>

definition row_passes :: "string set \<Rightarrow> string list \<Rightarrow> string list \<Rightarrow> bool" where
  "row_passes required_fields names r \<longleftrightarrow>
     None \<notin> fst ` set (row_dict names r)
     \<and> (\<forall>fld \<in> required_fields. truthy (map_of (row_dict names r) (Some fld)))"

section \<open>The csv writer\<close>

text \<open>
  The values of an item that the model covers: strings, booleans and \<open>None\<close>. The
  writer of \<open>csv.DictWriter(outfile, fieldnames=field_names, extrasaction="ignore")\<close>
  has the dialect \<open>excel\<close>: a field is quoted only when it holds the delimiter, the
  quotechar or a character of the line terminator, and a quotechar inside it is doubled.
\<close>

datatype item_value = Str string | Bool bool | NoneValue

type_synonym item = "string \<rightharpoonup> item_value"

record writer_obj =
  rec_buf :: string  \<comment> \<open>\<open>self->rec\<close>, the text of the record so far\<close>
  num_fields :: nat

definition join_reset :: writer_obj where
  "join_reset = \<lparr>rec_buf = [], num_fields = 0\<rparr>"

text \<open>\<open>str(field)\<close> for a field that is neither a string nor \<open>None\<close>.\<close>

fun PyObject_Str :: "item_value \<Rightarrow> string" where
  "PyObject_Str (Bool b) = (if b then ''True'' else ''False'')"
| "PyObject_Str (Str s) = s"
| "PyObject_Str NoneValue = ''None''"

text \<open>
  \<open>join_append_data\<close> runs twice over the characters of a field: the first pass finds
  out whether the field must be quoted, the second copies it. \<open>field_quoted\<close> is the
  flag after the first pass and \<open>copy_field_data\<close> what the loop of the second pass
  writes.
\<close>

definition want_quote :: "char \<Rightarrow> bool" where
  "want_quote c \<longleftrightarrow> c = delimiter \<or> c = quotechar \<or> c \<in> set lineterminator"

definition field_quoted :: "bool \<Rightarrow> string \<Rightarrow> bool" where
  "field_quoted quoted field_data \<longleftrightarrow> quoted \<or> list_ex want_quote field_data"

fun copy_field_data :: "string \<Rightarrow> string" where
  "copy_field_data [] = []"
| "copy_field_data (c # cs) =
     (if c = quotechar then quotechar # c # copy_field_data cs else c # copy_field_data cs)"

definition join_append :: "writer_obj \<Rightarrow> string option \<Rightarrow> bool \<Rightarrow> writer_obj" where
  "join_append self fld quote =
     (let field_data = (case fld of None \<Rightarrow> [] | Some s \<Rightarrow> s);
          quoted = field_quoted quote field_data
      in \<lparr>rec_buf =
            rec_buf self
            @ (if num_fields self > 0 then [delimiter] else [])
            @ (if quoted then [quotechar] else [])
            @ copy_field_data field_data
            @ (if quoted then [quotechar] else []),
          num_fields = num_fields self + 1\<rparr>)"

definition append_field :: "item_value \<Rightarrow> writer_obj \<Rightarrow> writer_obj" where
  "append_field fld self =
     (case fld of
        Str s \<Rightarrow> join_append self (Some s) False
      | NoneValue \<Rightarrow> join_append self None False
      | Bool b \<Rightarrow> join_append self (Some (PyObject_Str fld)) False)"

text \<open>
  \<open>csv_writerow\<close>: the fields are joined, a record that is one empty field is written
  as a quoted empty field, the line terminator follows, and the record goes to the file.
\<close>

definition csv_writerow :: "string \<Rightarrow> item_value list \<Rightarrow> string" where
  "csv_writerow outfile seq =
     (let self = fold append_field seq join_reset;
          self' = (if num_fields self > 0 \<and> rec_buf self = []
                   then join_append (self\<lparr>num_fields := num_fields self - 1\<rparr>) None True
                   else self)
      in outfile @ rec_buf self' @ lineterminator)"

text \<open>
  \<open>DictWriter._dict_to_list\<close> with \<open>extrasaction="ignore"\<close> and the default \<open>restval\<close>,
  the empty string: \<open>(rowdict.get(key, self.restval) for key in self.fieldnames)\<close>.
\<close>

definition dict_to_list :: "string list \<Rightarrow> item \<Rightarrow> item_value list" where
  "dict_to_list field_names rowdict =
     map (\<lambda>key. case rowdict key of Some v \<Rightarrow> v | None \<Rightarrow> Str []) field_names"

definition DictWriter_writerow :: "string \<Rightarrow> string list \<Rightarrow> item \<Rightarrow> string" where
  "DictWriter_writerow outfile field_names rowdict =
     csv_writerow outfile (dict_to_list field_names rowdict)"

text \<open>
  \<open>DictWriter.writeheader\<close> writes the row \<open>dict(zip(self.fieldnames, self.fieldnames))\<close>,
  which maps every field name to itself.
\<close>

definition DictWriter_writeheader :: "string \<Rightarrow> string list \<Rightarrow> string" where
  "DictWriter_writeheader outfile field_names =
     DictWriter_writerow outfile field_names (map_of (zip field_names (map Str field_names)))"

text \<open>
  \<^verbatim>\<open>
  outfile = StringIO()
  writer = csv.DictWriter(outfile, fieldnames=field_names, extrasaction="ignore")
  if include_headers:
      writer.writeheader()
  for item in items:
      writer.writerow(item)
  return outfile.getvalue()
  \<close>
\<close>

definition serialize_to_csv :: "item list \<Rightarrow> string list \<Rightarrow> bool \<Rightarrow> string" where
  "serialize_to_csv items field_names include_headers =
     (let outfile = [];
          outfile' = (if include_headers then DictWriter_writeheader outfile field_names
                      else outfile)
      in fold (\<lambda>item out. DictWriter_writerow out field_names item) items outfile')"

section \<open>Notions for the statements about the writer\<close>

text \<open>
  The CSV text as the specification describes it, to compare with what the writer
  produces: \<open>field_text\<close> is the text of a value (booleans as \<open>True\<close> and \<open>False\<close>,
  \<open>None\<close> as the empty text), \<open>csv_field\<close> puts a field in quotes when it needs them,
  \<open>join_fields\<close> separates the fields of a record by the delimiter, and \<open>csv_record\<close>
  is the text of a record before its line terminator.
\<close>

definition field_text :: "item_value \<Rightarrow> string" where
  "field_text v = (case v of Str s \<Rightarrow> s | NoneValue \<Rightarrow> [] | Bool b \<Rightarrow> if b then ''True'' else ''False'')"

definition csv_field :: "string \<Rightarrow> string" where
  "csv_field s =
     (if list_ex want_quote s then [quotechar] @ copy_field_data s @ [quotechar] else s)"

fun join_fields :: "string list \<Rightarrow> string" where
  "join_fields [] = []"
| "join_fields [f] = f"
| "join_fields (f # g # fs) = f @ delimiter # join_fields (g # fs)"

definition csv_record :: "string list \<Rightarrow> string" where
  "csv_record texts =
     (if texts = [[]] then [quotechar, quotechar] else join_fields (map csv_field texts))"


section \<open>Permission resolver: properties\<close>

lemma fold_add_api_permission:
  "fold (add_api_permission M) ds acc = acc \<union> {p. \<exists>d \<in> set ds. M d = Some p}"
proof (induction ds arbitrary: acc)
  case Nil
  show ?case by simp
next
  case (Cons d ds)
  have "fold (add_api_permission M) (d # ds) acc
          = add_api_permission M d acc \<union> {p. \<exists>d \<in> set ds. M d = Some p}"
    by (simp add: Cons.IH)
  also have "\<dots> = acc \<union> {p. \<exists>d' \<in> set (d # ds). M d' = Some p}"
    by (cases "M d") (auto simp: add_api_permission_def)
  finally show ?case .
qed

text \<open>
  Claim C1. For every user and program, the effective permissions are the union of the
  resolver's result on the program and its result on the program's managing
  organization when enrollments are enabled, and that union minus the enrollment
  permissions when they are not.
\<close>

theorem effective_permissions_union_filter:
  "get_effective_user_program_api_permissions M E usr prog =
     (if is_enrollment_enabled prog
      then get_user_api_permissions M usr (Some (ProgramObj prog))
           \<union> get_user_api_permissions M usr (Some (OrganizationObj (managing_organization prog)))
      else (get_user_api_permissions M usr (Some (ProgramObj prog))
            \<union> get_user_api_permissions M usr (Some (OrganizationObj (managing_organization prog))))
           - set E)"
  by (simp add: get_effective_user_program_api_permissions_def
        remove_permissions_if_enrollments_disabled_def)

theorem effective_permissions_union_filter_witness:
  "get_effective_user_program_api_permissions
     [''program_read_enrollments'' \<mapsto> ''API_READ_ENROLLMENTS'',
      ''organization_read_metadata'' \<mapsto> ''API_READ_METADATA'']
     [''API_READ_ENROLLMENTS'', ''API_WRITE_ENROLLMENTS'']
     \<lparr>get_perms = (\<lambda>ob. case ob of ProgramObj p \<Rightarrow> [''program_read_enrollments'']
                              | OrganizationObj g \<Rightarrow> [''organization_read_metadata'', ''unmapped'']),
      get_all_permissions = []\<rparr>
     \<lparr>program_key = ''masters'', managing_organization = \<lparr>organization_key = ''uni''\<rparr>,
      is_enrollment_enabled = False\<rparr>
   = {''API_READ_METADATA''}"
  by (auto simp: effective_permissions_union_filter get_user_api_permissions_def
        add_api_permission_def)

text \<open>
  Claim C2. For every user and every object, present or absent, the result of
  \<open>get_user_api_permissions\<close> lies in the range of the mapping: it is exactly the set
  of the mapped values of the collected identifiers that are keys of the mapping, the
  others being dropped, and without an object only the global identifiers are collected.
\<close>

theorem user_api_permissions_mapped:
  "get_user_api_permissions M usr ob \<subseteq> ran M
   \<and> get_user_api_permissions M usr ob =
       {p. \<exists>d \<in> set ((case ob of Some x \<Rightarrow> get_perms usr x | None \<Rightarrow> [])
                       @ get_all_permissions usr). M d = Some p}
   \<and> get_user_api_permissions M usr None =
       {p. \<exists>d \<in> set (get_all_permissions usr). M d = Some p}"
  by (auto simp: get_user_api_permissions_def fold_add_api_permission ran_def)

theorem user_api_permissions_mapped_witness:
  "get_user_api_permissions [''a'' \<mapsto> (1::nat), ''b'' \<mapsto> 2]
      \<lparr>get_perms = (\<lambda>ob. [''a'', ''zz'']), get_all_permissions = [''b'', ''yy'']\<rparr> None
   = {p. \<exists>d \<in> set [''b'', ''yy'']. [''a'' \<mapsto> (1::nat), ''b'' \<mapsto> 2] d = Some p}"
  using user_api_permissions_mapped
    [of "[''a'' \<mapsto> (1::nat), ''b'' \<mapsto> 2]"
        "\<lparr>get_perms = (\<lambda>ob. [''a'', ''zz'']), get_all_permissions = [''b'', ''yy'']\<rparr>" None]
  by simp

section \<open>CSV loader: properties\<close>

text \<open>
  Claim C10. On the empty string there is no header record: the header normalisation
  iterates over \<open>None\<close> and the call ends in a \<open>TypeError\<close>, whatever the field sets,
  not in the \<open>ValidationError\<close> of the loader.
\<close>

theorem load_empty_string_type_error:
  "load_records_from_csv [] field_names optional_fields = Inl TypeError"
  by (simp add: load_records_from_csv_def splitlines_def fieldnames_def
        DictReader_fieldnames_def Reader_iternext_def parse_reset_def)

theorem load_empty_string_type_error_witness:
  "load_records_from_csv [] {''name'', ''email''} {''email''} = Inl TypeError"
  by (rule load_empty_string_type_error)

subsection \<open>The reader's steps\<close>

lemma fieldnames_cached:
  "cached_fieldnames rdr = Some header \<Longrightarrow>
     fieldnames rdr = Inr (map (\<lambda>h. lower (strip h)) header, rdr)"
  by (simp add: fieldnames_def DictReader_fieldnames_def)

lemma fieldnames_fresh:
  "fieldnames \<lparr>cached_fieldnames = None, reader = ls\<rparr> =
     (case Reader_iternext ls of
        Yield header rest \<Rightarrow>
          Inr (map (\<lambda>h. lower (strip h)) header, \<lparr>cached_fieldnames = Some header, reader = rest\<rparr>)
      | StopIteration \<Rightarrow> Inl TypeError
      | Raise e \<Rightarrow> Inl e)"
  by (simp add: fieldnames_def DictReader_fieldnames_def split: iter.splits)

lemma DictReader_next_cached:
  "cached_fieldnames rdr = Some header \<Longrightarrow>
     DictReader_next rdr =
       (case next_row (reader rdr) of
          Yield r rest \<Rightarrow> Yield (row_dict (map (\<lambda>h. lower (strip h)) header) r) (rdr\<lparr>reader := rest\<rparr>)
        | StopIteration \<Rightarrow> StopIteration
        | Raise e \<Rightarrow> Raise e)"
  by (simp add: DictReader_next_def fieldnames_cached split: iter.splits)

lemma keys_updates:
  "fst ` set (AList.updates ks vs al) = fst ` set al \<union> set (take (length vs) ks)"
proof (induction ks arbitrary: vs al)
  case Nil
  show ?case by simp
next
  case (Cons k ks)
  show ?case
  proof (cases vs)
    case Nil
    then show ?thesis by simp
  next
    case (Cons v vs')
    then show ?thesis
      by (auto simp: Cons.IH AList.dom_update)
  qed
qed

lemma keys_fold_update:
  "fst ` set (fold (\<lambda>key. AList.update (g key) v) ks al) = fst ` set al \<union> g ` set ks"
  by (induction ks arbitrary: al) (auto simp: AList.dom_update)

lemma distinct_fold_update:
  "distinct (map fst al) \<Longrightarrow> distinct (map fst (fold (\<lambda>key. AList.update (g key) v) ks al))"
  by (induction ks arbitrary: al) (auto simp: AList.distinct_update)

lemma row_dict_keys:
  "fst ` set (row_dict names r) =
     Some ` set names \<union> (if length names < length r then {None} else {})"
proof -
  have k: "fst ` set (dict_zip names r) = Some ` set (take (length r) names)"
    by (simp add: dict_zip_def keys_updates take_map)
  show ?thesis
  proof (cases "length names < length r")
    case True
    then show ?thesis
      by (simp add: row_dict_def Let_def AList.dom_update k)
  next
    case False
    show ?thesis
    proof (cases "length names > length r")
      case True
      have "set (take (length r) names) \<union> set (drop (length r) names) = set names"
        by (metis append_take_drop_id set_append)
      with True show ?thesis
        by (simp add: row_dict_def Let_def keys_fold_update k image_Un [symmetric])
    next
      case False
      with \<open>\<not> length names < length r\<close> show ?thesis
        by (simp add: row_dict_def Let_def k)
    qed
  qed
qed

lemma required_fields_are_keys:
  "required_fields \<subseteq> set names \<Longrightarrow> fld \<in> required_fields \<Longrightarrow>
     Some fld \<in> fst ` set (row_dict names r)"
  by (auto simp: row_dict_keys)

lemma row_dict_distinct: "distinct (map fst (row_dict names r))"
proof -
  have "distinct (map fst (dict_zip names r))"
    unfolding dict_zip_def by (rule AList.distinct_updates) simp
  then show ?thesis
    by (simp add: row_dict_def Let_def AList.distinct_update distinct_fold_update)
qed

lemma stripped_row_map_of:
  "stripped_row F d = Inr rc \<Longrightarrow>
     map_of rc f =
       (if f \<in> F then (case map_of d (Some f) of Some (Text s) \<Rightarrow> Some (strip s) | _ \<Rightarrow> None)
        else None)"
proof (induction F d arbitrary: rc rule: stripped_row.induct)
  case (1 F)
  then show ?case by simp
next
  case (2 F v items)
  then show ?case by simp
next
  case (3 F fld v items)
  show ?case
  proof (cases "fld \<in> F")
    case True
    with "3.prems" obtain s rc' where
      v: "v = Text s" and r: "stripped_row F items = Inr rc'" and rc: "rc = (fld, strip s) # rc'"
      by (auto split: cell.splits sum.splits)
    from "3.IH"(1) [OF True v r] show ?thesis
      by (simp add: rc v True)
  next
    case False
    with "3.prems" have "stripped_row F items = Inr rc" by simp
    from "3.IH"(2) [OF False this] False show ?thesis by auto
  qed
qed

lemma stripped_row_keys:
  "stripped_row F d = Inr rc \<Longrightarrow> fst ` set rc = {f \<in> F. Some f \<in> fst ` set d}"
proof (induction F d arbitrary: rc rule: stripped_row.induct)
  case (1 F)
  then show ?case by simp
next
  case (2 F v items)
  from "2.IH" [OF "2.prems" [simplified]] show ?case by auto
next
  case (3 F fld v items)
  show ?case
  proof (cases "fld \<in> F")
    case True
    with "3.prems" obtain s rc' where
      v: "v = Text s" and r: "stripped_row F items = Inr rc'" and rc: "rc = (fld, strip s) # rc'"
      by (auto split: cell.splits sum.splits)
    from "3.IH"(1) [OF True v r] True show ?thesis
      by (auto simp: rc)
  next
    case False
    with "3.prems" have "stripped_row F items = Inr rc" by simp
    from "3.IH"(2) [OF False this] False show ?thesis by auto
  qed
qed

lemma stripped_row_distinct:
  "stripped_row F d = Inr rc \<Longrightarrow> distinct (map fst d) \<Longrightarrow> distinct (map fst rc)"
proof (induction F d arbitrary: rc rule: stripped_row.induct)
  case (1 F)
  then show ?case by simp
next
  case (2 F v items)
  then show ?case by simp
next
  case (3 F fld v items)
  show ?case
  proof (cases "fld \<in> F")
    case True
    with "3.prems" obtain s rc' where
      v: "v = Text s" and r: "stripped_row F items = Inr rc'" and rc: "rc = (fld, strip s) # rc'"
      by (auto split: cell.splits sum.splits)
    from stripped_row_keys [OF r] "3.prems"(2) have "fld \<notin> fst ` set rc'"
      by auto
    with "3.IH"(1) [OF True v r] "3.prems"(2) show ?thesis
      by (simp add: rc)
  next
    case False
    with "3.prems" have "stripped_row F items = Inr rc" by simp
    from "3.IH"(2) [OF False this] "3.prems"(2) show ?thesis by simp
  qed
qed

lemma stripped_row_values:
  "stripped_row F d = Inr rc \<Longrightarrow> (f, v) \<in> set rc \<Longrightarrow> \<exists>s. v = strip s"
proof (induction F d arbitrary: rc rule: stripped_row.induct)
  case (1 F)
  then show ?case by simp
next
  case (2 F v items)
  then show ?case by simp
next
  case (3 F fld c items)
  show ?case
  proof (cases "fld \<in> F")
    case True
    with "3.prems" obtain s rc' where
      v: "c = Text s" and r: "stripped_row F items = Inr rc'" and rc: "rc = (fld, strip s) # rc'"
      by (auto split: cell.splits sum.splits)
    from "3.IH"(1) [OF True v r] "3.prems"(2) show ?thesis
      by (auto simp: rc)
  next
    case False
    with "3.prems" have "stripped_row F items = Inr rc" by simp
    from "3.IH"(2) [OF False this] "3.prems"(2) show ?thesis by simp
  qed
qed

lemma load_rows_step:
  assumes c: "cached_fieldnames rdr = Some header"
  shows "load_rows F R n rdr acc =
     (case next_row (reader rdr) of
        StopIteration \<Rightarrow> Inr acc
      | Raise e \<Rightarrow> Inl e
      | Yield r rest \<Rightarrow>
          if \<not> row_passes R (map (\<lambda>h. lower (strip h)) header) r
          then Inl (ValidationError (Missing_data n F))
          else (case stripped_row F (row_dict (map (\<lambda>h. lower (strip h)) header) r) of
                  Inl e \<Rightarrow> Inl e
                | Inr stripped \<Rightarrow> load_rows F R (n + 1) (rdr\<lparr>reader := rest\<rparr>) (acc @ [stripped])))"
  by (subst load_rows.simps)
     (simp add: DictReader_next_cached [OF c] row_passes_def split: iter.splits)

lemma data_rows_step:
  "data_rows ls =
     (case next_row ls of Yield r rest \<Rightarrow> r # data_rows rest | StopIteration \<Rightarrow> [] | Raise e \<Rightarrow> [])"
  by (subst data_rows.simps) simp

lemma load_rows_Inr:
  assumes "cached_fieldnames rdr = Some header"
      and "reader rdr = ls"
      and "load_rows F R n rdr acc = Inr recs"
  shows "\<exists>new. recs = acc @ new
           \<and> list_all2 (\<lambda>r rc. row_passes R (map (\<lambda>h. lower (strip h)) header) r
                  \<and> stripped_row F (row_dict (map (\<lambda>h. lower (strip h)) header) r) = Inr rc)
                (data_rows ls) new"
  using assms
proof (induction ls arbitrary: rdr n acc rule: data_rows.induct)
  case (1 ls)
  note c = "1.prems"(1) and rd = "1.prems"(2) and l = "1.prems"(3)
  let ?names = "map (\<lambda>h. lower (strip h)) header"
  show ?case
  proof (cases "next_row ls")
    case StopIteration
    with l c rd have "recs = acc"
      by (simp add: load_rows_step [OF c])
    with StopIteration show ?thesis
      by (simp add: data_rows_step [of ls])
  next
    case (Raise e)
    with l c rd show ?thesis
      by (simp add: load_rows_step [OF c])
  next
    case (Yield r rest)
    from l Yield rd have p: "row_passes R ?names r"
      by (simp add: load_rows_step [OF c] split: if_splits)
    with l Yield rd obtain st where
      st: "stripped_row F (row_dict ?names r) = Inr st"
      and l': "load_rows F R (n + 1) (rdr\<lparr>reader := rest\<rparr>) (acc @ [st]) = Inr recs"
      by (simp add: load_rows_step [OF c] split: sum.splits)
    have "cached_fieldnames (rdr\<lparr>reader := rest\<rparr>) = Some header"
      using c by simp
    from "1.IH" [OF Yield this _ l'] obtain new where
      new: "recs = (acc @ [st]) @ new"
      and all: "list_all2 (\<lambda>r rc. row_passes R ?names r
                  \<and> stripped_row F (row_dict ?names r) = Inr rc) (data_rows rest) new"
      by auto
    have "data_rows ls = r # data_rows rest"
      using Yield by (simp add: data_rows_step [of ls])
    with new all p st show ?thesis
      by (intro exI [of _ "st # new"]) simp
  qed
qed

lemma load_records_from_csv_header:
  "load_records_from_csv csv_string F Opt =
     (case Reader_iternext (splitlines csv_string) of
        StopIteration \<Rightarrow> Inl TypeError
      | Raise e \<Rightarrow> Inl e
      | Yield header rest \<Rightarrow>
          if F - Opt \<subseteq> set (map (\<lambda>h. lower (strip h)) header)
          then load_rows F (F - Opt) 1 \<lparr>cached_fieldnames = Some header, reader = rest\<rparr> []
          else Inl (ValidationError
                 (Missing_headers (F - Opt - set (map (\<lambda>h. lower (strip h)) header)))))"
  by (auto simp: load_records_from_csv_def fieldnames_fresh Let_def split: iter.splits)

lemma dropWhile_id_iff: "dropWhile P xs = xs \<longleftrightarrow> xs = [] \<or> \<not> P (hd xs)"
proof (cases xs)
  case Nil
  then show ?thesis by simp
next
  case (Cons a list)
  have "dropWhile P list \<noteq> a # list"
    using length_dropWhile_le [of P list] by (auto dest: arg_cong [where f = length])
  with Cons show ?thesis by auto
qed

lemma strip_ends:
  "strip s = [] \<or> (\<not> isspace (hd (strip s)) \<and> \<not> isspace (last (strip s)))"
proof -
  define t where "t = dropWhile isspace s"
  define u where "u = dropWhile isspace (rev t)"
  have s: "strip s = rev u" by (simp add: strip_def t_def u_def)
  show ?thesis
  proof (cases "u = []")
    case True
    with s show ?thesis by simp
  next
    case False
    then have hu: "\<not> isspace (hd u)"
      unfolding u_def by (rule hd_dropWhile)
    from False have "t \<noteq> []" by (auto simp: u_def)
    then have ht: "\<not> isspace (hd t)"
      unfolding t_def by (rule hd_dropWhile)
    obtain pre where "rev t = pre @ u"
      unfolding u_def by (metis takeWhile_dropWhile_id)
    then have "t = rev u @ rev pre" by (metis rev_append rev_rev_ident)
    with False have "hd t = hd (rev u)" by simp
    with ht hu False s show ?thesis
      by (simp add: last_rev hd_rev)
  qed
qed

lemma strip_idem: "strip (strip s) = strip s"
proof (cases "strip s = []")
  case True
  have "strip [] = []" by (simp add: strip_def)
  with True show ?thesis by simp
next
  case False
  with strip_ends [of s] have h: "\<not> isspace (hd (strip s))" and l: "\<not> isspace (last (strip s))"
    by auto
  from h False have "dropWhile isspace (strip s) = strip s"
    by (simp add: dropWhile_id_iff)
  moreover from l False have "dropWhile isspace (rev (strip s)) = rev (strip s)"
    by (simp add: dropWhile_id_iff hd_rev)
  ultimately show ?thesis
    by (simp add: strip_def [of "strip s"])
qed

lemma list_all2_setD2:
  "list_all2 P xs ys \<Longrightarrow> y \<in> set ys \<Longrightarrow> \<exists>x \<in> set xs. P x y"
  by (induction rule: list_all2_induct) auto

lemma map_of_fold_update_Restval:
  "map_of (fold (\<lambda>key. AList.update (Some key) Restval) ks al) k = Some (Text c) \<Longrightarrow>
     map_of al k = Some (Text c)"
proof (induction ks arbitrary: al)
  case Nil
  then show ?case by simp
next
  case (Cons key ks)
  from Cons.prems have "map_of (AList.update (Some key) Restval al) k = Some (Text c)"
    by (auto dest: Cons.IH)
  then show ?case
    by (simp add: AList.update_conv' split: if_splits)
qed

lemma map_of_dict_zip_Text:
  "map_of (dict_zip names r) k = Some (Text c) \<Longrightarrow> c \<in> set r"
proof -
  assume "map_of (dict_zip names r) k = Some (Text c)"
  then have "map_of (rev (zip (map Some names) (map Text r))) k = Some (Text c)"
    by (simp add: dict_zip_def AList.updates_conv' map_upds_def)
  then have "(k, Text c) \<in> set (zip (map Some names) (map Text r))"
    by (auto dest: map_of_SomeD)
  then have "Text c \<in> set (map Text r)"
    by (rule set_zip_rightD)
  then show ?thesis by auto
qed

lemma row_dict_Text:
  "map_of (row_dict names r) (Some f) = Some (Text c) \<Longrightarrow> c \<in> set r"
  by (auto simp: row_dict_def Let_def AList.update_conv' split: if_splits
        dest: map_of_dict_zip_Text map_of_fold_update_Restval)

lemma load_Inr_rows:
  assumes "load_records_from_csv csv_string F Opt = Inr recs"
  obtains header rest where
    "Reader_iternext (splitlines csv_string) = Yield header rest"
    "F - Opt \<subseteq> set (map (\<lambda>h. lower (strip h)) header)"
    "list_all2 (\<lambda>r rc. row_passes (F - Opt) (map (\<lambda>h. lower (strip h)) header) r
               \<and> stripped_row F (row_dict (map (\<lambda>h. lower (strip h)) header) r) = Inr rc)
       (data_rows rest) recs"
proof -
  from assms obtain header rest where
    y: "Reader_iternext (splitlines csv_string) = Yield header rest"
    by (cases "Reader_iternext (splitlines csv_string)")
       (simp_all add: load_records_from_csv_header)
  let ?names = "map (\<lambda>h. lower (strip h)) header"
  from assms y have sub: "F - Opt \<subseteq> set ?names"
    by (simp add: load_records_from_csv_header split: if_splits)
  with assms y have
    "load_rows F (F - Opt) 1 \<lparr>cached_fieldnames = Some header, reader = rest\<rparr> [] = Inr recs"
    by (simp add: load_records_from_csv_header)
  from load_rows_Inr [OF _ _ this, of header rest] have
    "list_all2 (\<lambda>r rc. row_passes (F - Opt) ?names r
               \<and> stripped_row F (row_dict ?names r) = Inr rc) (data_rows rest) recs"
    by simp
  with y sub that show thesis by blast
qed

lemma passed_required_cell:
  assumes p: "row_passes R names r"
      and s: "stripped_row F (row_dict names r) = Inr rc"
      and f: "f \<in> R" "f \<in> F"
  shows "\<exists>c. c \<noteq> [] \<and> c \<in> set r \<and> map_of (row_dict names r) (Some f) = Some (Text c)
             \<and> map_of rc f = Some (strip c)"
proof -
  from p f have t: "truthy (map_of (row_dict names r) (Some f))"
    by (simp add: row_passes_def)
  then obtain v where v: "map_of (row_dict names r) (Some f) = Some v"
    by (cases "map_of (row_dict names r) (Some f)") auto
  then have "Some f \<in> fst ` set (row_dict names r)"
    by (auto dest: map_of_SomeD intro: rev_image_eqI)
  with stripped_row_keys [OF s] f have "f \<in> fst ` set rc" by simp
  then have "map_of rc f \<noteq> None"
    by (simp add: map_of_eq_None_iff)
  with stripped_row_map_of [OF s, of f] v obtain c where c: "v = Text c"
    by (cases v) (auto split: if_splits)
  with t v have "c \<noteq> []" by simp
  moreover from v c have "c \<in> set r" by (auto dest: row_dict_Text)
  moreover from stripped_row_map_of [OF s, of f] v c f have "map_of rc f = Some (strip c)"
    by simp
  ultimately show ?thesis using v c by blast
qed

lemma stripped_row_raw_cell:
  assumes "stripped_row F (row_dict names r) = Inr rc" and "map_of rc fld = Some v"
  shows "\<exists>c \<in> set r. map_of (row_dict names r) (Some fld) = Some (Text c) \<and> v = strip c"
proof -
  from stripped_row_map_of [OF assms(1), of fld] assms(2) obtain c where
    c: "map_of (row_dict names r) (Some fld) = Some (Text c)" "v = strip c"
    by (auto split: if_splits option.splits cell.splits)
  from c(1) have "c \<in> set r" by (rule row_dict_Text)
  with c show ?thesis by blast
qed

subsection \<open>Evaluation on concrete texts\<close>

lemmas reader_eval =
  splitlines_def is_linebreak_def Reader_iternext_def parse_reset_def parse_process_char_def
  case_START_FIELD_def parse_add_char_def parse_save_field_def set_state_def field_limit_def

lemma char_eq_char_of_iff: "c = char_of n \<longleftrightarrow> take_bit 8 n = (of_char c :: nat)"
  using char_of_eq_iff [of n c] by auto

lemmas rows_eval =
  fieldnames_def DictReader_fieldnames_def DictReader_next_def
  next_row.simps load_rows.simps row_dict_def dict_zip_def strip_def isspace_def lower_def
  to_lower_def char_of_eq_iff char_eq_char_of_iff insert_Diff_if Let_def

subsection \<open>Required fields\<close>

text \<open>
  Claim C3, as stated, fails: the loop tests a required cell before it is trimmed, so a
  cell of white space passes and the returned record holds the empty string for a
  required field.
\<close>

theorem load_required_cells_counterexample:
  "load_records_from_csv (''name'' @ [LF] @ '' '') {''name''} {} = Inr [[(''name'', [])]]"
  by (simp add: load_records_from_csv_def reader_eval rows_eval)

text \<open>
  Claim C3, amended. Whenever \<open>load_records_from_csv\<close> returns a record list, every
  required field is among the trimmed, lowercased header tokens, the records correspond
  one to one and in order to the data rows, and in every data row every required field
  has a non-empty cell whose trimmed form is the field's value in the record.
\<close>

theorem load_required_cells:
  assumes "load_records_from_csv csv_string field_names optional_fields = Inr records"
  shows "\<exists>header rest.
           Reader_iternext (splitlines csv_string) = Yield header rest
           \<and> field_names - optional_fields \<subseteq> set (map (\<lambda>h. lower (strip h)) header)
           \<and> list_all2
               (\<lambda>r rc. \<forall>fld \<in> field_names - optional_fields.
                  \<exists>c. c \<noteq> [] \<and> c \<in> set r
                      \<and> map_of (row_dict (map (\<lambda>h. lower (strip h)) header) r) (Some fld)
                          = Some (Text c)
                      \<and> map_of rc fld = Some (strip c))
               (data_rows rest) records"
proof -
  from assms obtain header rest where
    y: "Reader_iternext (splitlines csv_string) = Yield header rest"
    and sub: "field_names - optional_fields \<subseteq> set (map (\<lambda>h. lower (strip h)) header)"
    and rows: "list_all2
       (\<lambda>r rc. row_passes (field_names - optional_fields) (map (\<lambda>h. lower (strip h)) header) r
          \<and> stripped_row field_names (row_dict (map (\<lambda>h. lower (strip h)) header) r) = Inr rc)
       (data_rows rest) records"
    by (rule load_Inr_rows)
  from rows have "list_all2
       (\<lambda>r rc. \<forall>fld \<in> field_names - optional_fields.
          \<exists>c. c \<noteq> [] \<and> c \<in> set r
              \<and> map_of (row_dict (map (\<lambda>h. lower (strip h)) header) r) (Some fld) = Some (Text c)
              \<and> map_of rc fld = Some (strip c))
       (data_rows rest) records"
  proof (rule list_all2_mono)
    fix r rc
    assume "row_passes (field_names - optional_fields) (map (\<lambda>h. lower (strip h)) header) r
          \<and> stripped_row field_names (row_dict (map (\<lambda>h. lower (strip h)) header) r) = Inr rc"
    then show "\<forall>fld \<in> field_names - optional_fields.
          \<exists>c. c \<noteq> [] \<and> c \<in> set r
              \<and> map_of (row_dict (map (\<lambda>h. lower (strip h)) header) r) (Some fld) = Some (Text c)
              \<and> map_of rc fld = Some (strip c)"
      by (auto intro!: passed_required_cell)
  qed
  with y sub show ?thesis by blast
qed

theorem load_required_cells_witness:
  "\<exists>header rest.
     Reader_iternext (splitlines (''Name,Age'' @ [LF] @ ''A ,1'')) = Yield header rest
     \<and> {''name'', ''age''} - {} \<subseteq> set (map (\<lambda>h. lower (strip h)) header)
     \<and> list_all2
         (\<lambda>r rc. \<forall>fld \<in> {''name'', ''age''} - {}.
            \<exists>c. c \<noteq> [] \<and> c \<in> set r
                \<and> map_of (row_dict (map (\<lambda>h. lower (strip h)) header) r) (Some fld)
                    = Some (Text c)
                \<and> map_of rc fld = Some (strip c))
         (data_rows rest) [[(''name'', ''A''), (''age'', ''1'')]]"
proof -
  have "load_records_from_csv (''Name,Age'' @ [LF] @ ''A ,1'') {''name'', ''age''} {}
          = Inr [[(''name'', ''A''), (''age'', ''1'')]]"
    by (simp add: load_records_from_csv_def reader_eval rows_eval)
  then show ?thesis by (rule load_required_cells)
qed

text \<open>
  Claim C4 says that the message of a bad row lists the required fields,
  \<open>field_names\<close> minus \<open>optional_fields\<close>. The code joins \<open>field_names\<close>: with the
  header \<open>name,phone\<close>, the row \<open>,1\<close> and \<open>phone\<close> optional, the only required field
  is \<open>name\<close> and the message lists \<open>name\<close> and \<open>phone\<close>.
\<close>

theorem load_missing_data_lists_all_fields:
  "load_records_from_csv (''name,phone'' @ [LF] @ '',1'') {''name'', ''phone''} {''phone''}
     = Inl (ValidationError (Missing_data 1 {''name'', ''phone''}))"
  by (simp add: load_records_from_csv_def reader_eval rows_eval)

text \<open>
  Claim C5 says that a ragged row always ends in the \<open>ValidationError\<close> of its row. A
  short row has no key \<open>None\<close>; its missing cells are \<open>None\<close> values. When they all
  belong to optional fields, the row passes the check and \<open>None.strip()\<close> raises
  \<open>AttributeError\<close>.
\<close>

theorem load_short_row_attribute_error:
  "load_records_from_csv (''name,phone'' @ [LF] @ ''A'') {''name'', ''phone''} {''phone''}
     = Inl AttributeError"
  by (simp add: load_records_from_csv_def reader_eval rows_eval)

subsection \<open>The keys and values of a record\<close>

text \<open>
  Claim C6, as stated, fails: an optional field whose column is not in the header is
  no key of the record.
\<close>

theorem load_record_keys_counterexample:
  "load_records_from_csv (''name'' @ [LF] @ ''A'') {''name'', ''phone''} {''phone''}
     = Inr [[(''name'', ''A'')]]"
  by (simp add: load_records_from_csv_def reader_eval rows_eval)

text \<open>
  Claim C6, amended. The keys of every returned record are exactly the requested
  fields that occur among the trimmed, lowercased header tokens, each once; every
  required field is among them; and every value is trimmed of surrounding white space:
  the records correspond one to one and in order to the data rows, and the value of a
  field in a record is the trimmed form of the cell that the row has for that field.
\<close>

theorem load_record_keys:
  assumes "load_records_from_csv csv_string field_names optional_fields = Inr records"
  shows "\<exists>header rest.
           Reader_iternext (splitlines csv_string) = Yield header rest
           \<and> (\<forall>rc \<in> set records.
                 fst ` set rc = field_names \<inter> set (map (\<lambda>h. lower (strip h)) header)
                 \<and> distinct (map fst rc)
                 \<and> field_names - optional_fields \<subseteq> fst ` set rc
                 \<and> (\<forall>(fld, v) \<in> set rc. strip v = v))
           \<and> list_all2
               (\<lambda>r rc. \<forall>(fld, v) \<in> set rc.
                  \<exists>c \<in> set r.
                    map_of (row_dict (map (\<lambda>h. lower (strip h)) header) r) (Some fld)
                      = Some (Text c)
                    \<and> v = strip c)
               (data_rows rest) records"
proof -
  from assms obtain header rest where
    y: "Reader_iternext (splitlines csv_string) = Yield header rest"
    and sub: "field_names - optional_fields \<subseteq> set (map (\<lambda>h. lower (strip h)) header)"
    and rows: "list_all2
       (\<lambda>r rc. row_passes (field_names - optional_fields) (map (\<lambda>h. lower (strip h)) header) r
          \<and> stripped_row field_names (row_dict (map (\<lambda>h. lower (strip h)) header) r) = Inr rc)
       (data_rows rest) records"
    by (rule load_Inr_rows)
  let ?names = "map (\<lambda>h. lower (strip h)) header"
  have keys: "fst ` set rc = field_names \<inter> set ?names
        \<and> distinct (map fst rc)
        \<and> field_names - optional_fields \<subseteq> fst ` set rc
        \<and> (\<forall>(fld, v) \<in> set rc. strip v = v)" if "rc \<in> set records" for rc
  proof -
    from list_all2_setD2 [OF rows that] obtain r where
      p: "row_passes (field_names - optional_fields) ?names r"
      and s: "stripped_row field_names (row_dict ?names r) = Inr rc"
      by blast
    from p have "None \<notin> fst ` set (row_dict ?names r)"
      by (simp add: row_passes_def)
    then have k: "fst ` set (row_dict ?names r) = Some ` set ?names"
      by (simp add: row_dict_keys split: if_splits)
    have keys: "fst ` set rc = field_names \<inter> set ?names"
      unfolding stripped_row_keys [OF s] k by auto
    have d: "distinct (map fst rc)"
      using s row_dict_distinct by (rule stripped_row_distinct)
    have v: "\<forall>(fld, v) \<in> set rc. strip v = v"
    proof (clarify)
      fix fld v
      assume "(fld, v) \<in> set rc"
      from stripped_row_values [OF s this] obtain c where "v = strip c" ..
      then show "strip v = v" by (simp add: strip_idem)
    qed
    from keys sub d v show ?thesis by auto
  qed
  from rows have cells: "list_all2
       (\<lambda>r rc. \<forall>(fld, v) \<in> set rc.
          \<exists>c \<in> set r. map_of (row_dict ?names r) (Some fld) = Some (Text c) \<and> v = strip c)
       (data_rows rest) records"
  proof (rule list_all2_mono)
    fix r rc
    assume a: "row_passes (field_names - optional_fields) ?names r
          \<and> stripped_row field_names (row_dict ?names r) = Inr rc"
    then have s: "stripped_row field_names (row_dict ?names r) = Inr rc" by simp
    have d: "distinct (map fst rc)"
      using s row_dict_distinct by (rule stripped_row_distinct)
    show "\<forall>(fld, v) \<in> set rc.
          \<exists>c \<in> set r. map_of (row_dict ?names r) (Some fld) = Some (Text c) \<and> v = strip c"
    proof (clarify)
      fix fld v
      assume "(fld, v) \<in> set rc"
      with d have "map_of rc fld = Some v" by simp
      with s show "\<exists>c \<in> set r. map_of (row_dict ?names r) (Some fld) = Some (Text c) \<and> v = strip c"
        by (rule stripped_row_raw_cell)
    qed
  qed
  from y keys cells show ?thesis by blast
qed

theorem load_record_keys_witness:
  "\<exists>header rest.
     Reader_iternext (splitlines (''name,age,extra'' @ [LF] @ ''A, 1 ,x'')) = Yield header rest
     \<and> (\<forall>rc \<in> set [[(''name'', ''A''), (''age'', ''1'')]].
           fst ` set rc = {''name'', ''age'', ''phone''} \<inter> set (map (\<lambda>h. lower (strip h)) header)
           \<and> distinct (map fst rc)
           \<and> {''name'', ''age'', ''phone''} - {''phone''} \<subseteq> fst ` set rc
           \<and> (\<forall>(fld, v) \<in> set rc. strip v = v))
     \<and> list_all2
         (\<lambda>r rc. \<forall>(fld, v) \<in> set rc.
            \<exists>c \<in> set r.
              map_of (row_dict (map (\<lambda>h. lower (strip h)) header) r) (Some fld)
                = Some (Text c)
              \<and> v = strip c)
         (data_rows rest) [[(''name'', ''A''), (''age'', ''1'')]]"
proof -
  have "load_records_from_csv (''name,age,extra'' @ [LF] @ ''A, 1 ,x'')
          {''name'', ''age'', ''phone''} {''phone''}
          = Inr [[(''name'', ''A''), (''age'', ''1'')]]"
    by (simp add: load_records_from_csv_def reader_eval rows_eval)
  then show ?thesis by (rule load_record_keys)
qed

subsection \<open>Header normalisation\<close>

text \<open>
  Claim C7. The field names of the reader are the header tokens, each trimmed and then
  lowercased; the header check compares the required fields, as given, with these
  names; and every value of a returned record is the trimmed form of a cell of its data
  row, so the normalisation does not touch the values. The witness is the header
  \<open>" Email "\<close> matching the requested field \<open>"email"\<close>, with a value whose capitals stay.
\<close>

theorem header_tokens_normalised:
  assumes "Reader_iternext (splitlines csv_string) = Yield header rest"
  shows "fieldnames \<lparr>cached_fieldnames = None, reader = splitlines csv_string\<rparr>
           = Inr (map (\<lambda>h. lower (strip h)) header,
                  \<lparr>cached_fieldnames = Some header, reader = rest\<rparr>)
         \<and> load_records_from_csv csv_string field_names optional_fields
           = (if field_names - optional_fields \<subseteq> set (map (\<lambda>h. lower (strip h)) header)
              then load_rows field_names (field_names - optional_fields) 1
                     \<lparr>cached_fieldnames = Some header, reader = rest\<rparr> []
              else Inl (ValidationError (Missing_headers
                     (field_names - optional_fields - set (map (\<lambda>h. lower (strip h)) header)))))
         \<and> (\<forall>records. load_records_from_csv csv_string field_names optional_fields = Inr records
               \<longrightarrow> list_all2
                     (\<lambda>r rc. \<forall>fld v. map_of rc fld = Some v \<longrightarrow>
                        (\<exists>c \<in> set r.
                           map_of (row_dict (map (\<lambda>h. lower (strip h)) header) r) (Some fld)
                             = Some (Text c)
                           \<and> v = strip c))
                     (data_rows rest) records)"
proof (intro conjI allI impI)
  show "fieldnames \<lparr>cached_fieldnames = None, reader = splitlines csv_string\<rparr>
           = Inr (map (\<lambda>h. lower (strip h)) header,
                  \<lparr>cached_fieldnames = Some header, reader = rest\<rparr>)"
    by (simp add: fieldnames_fresh assms)
next
  show "load_records_from_csv csv_string field_names optional_fields
           = (if field_names - optional_fields \<subseteq> set (map (\<lambda>h. lower (strip h)) header)
              then load_rows field_names (field_names - optional_fields) 1
                     \<lparr>cached_fieldnames = Some header, reader = rest\<rparr> []
              else Inl (ValidationError (Missing_headers
                     (field_names - optional_fields - set (map (\<lambda>h. lower (strip h)) header)))))"
    by (simp add: load_records_from_csv_header assms)
next
  fix records
  assume l: "load_records_from_csv csv_string field_names optional_fields = Inr records"
  from l obtain header' rest' where
    y: "Reader_iternext (splitlines csv_string) = Yield header' rest'"
    and rows: "list_all2
       (\<lambda>r rc. row_passes (field_names - optional_fields) (map (\<lambda>h. lower (strip h)) header') r
          \<and> stripped_row field_names (row_dict (map (\<lambda>h. lower (strip h)) header') r) = Inr rc)
       (data_rows rest') records"
    by (rule load_Inr_rows)
  from y assms have eq: "header' = header" "rest' = rest" by simp_all
  from rows show "list_all2
         (\<lambda>r rc. \<forall>fld v. map_of rc fld = Some v \<longrightarrow>
            (\<exists>c \<in> set r.
               map_of (row_dict (map (\<lambda>h. lower (strip h)) header) r) (Some fld) = Some (Text c)
               \<and> v = strip c))
         (data_rows rest) records"
    unfolding eq
    by (rule list_all2_mono) (auto dest: stripped_row_raw_cell)
qed

theorem header_tokens_normalised_witness:
  "load_records_from_csv ('' Email ,Name'' @ [LF] @ '' Bob@X.ORG ,Al'') {''email''} {}
     = Inr [[(''email'', ''Bob@X.ORG'')]]"
proof -
  have "Reader_iternext (splitlines ('' Email ,Name'' @ [LF] @ '' Bob@X.ORG ,Al''))
          = Yield ['' Email '', ''Name''] ['' Bob@X.ORG ,Al'']"
    by (simp add: reader_eval)
  from header_tokens_normalised [OF this, of "{''email''}" "{}"] show ?thesis
    by (simp add: reader_eval rows_eval)
qed

section \<open>CSV writer: properties\<close>

lemma join_fields_Cons:
  "join_fields (f # fs) = f @ (if fs = [] then [] else delimiter # join_fields fs)"
  by (cases fs) simp_all

lemma copy_field_data_plain: "quotechar \<notin> set s \<Longrightarrow> copy_field_data s = s"
  by (induction s) auto

lemma append_field_text:
  "append_field v w =
     \<lparr>rec_buf = rec_buf w @ (if num_fields w > 0 then [delimiter] else []) @ csv_field (field_text v),
      num_fields = num_fields w + 1\<rparr>"
proof -
  have plain: "copy_field_data s = s" if "\<not> list_ex want_quote s" for s
    using that by (intro copy_field_data_plain) (auto simp: list_ex_iff want_quote_def)
  show ?thesis
    by (cases v)
       (auto simp: append_field_def join_append_def field_quoted_def field_text_def csv_field_def
          Let_def plain)
qed

lemma fold_append_field:
  "fold append_field seq w =
     \<lparr>rec_buf = rec_buf w @ (if num_fields w > 0 \<and> seq \<noteq> [] then [delimiter] else [])
                  @ join_fields (map (\<lambda>v. csv_field (field_text v)) seq),
      num_fields = num_fields w + length seq\<rparr>"
proof (induction seq arbitrary: w)
  case Nil
  show ?case by simp
next
  case (Cons v seq)
  have "fold append_field (v # seq) w = fold append_field seq (append_field v w)"
    by simp
  also have "\<dots> =
     \<lparr>rec_buf = rec_buf (append_field v w)
                  @ (if num_fields (append_field v w) > 0 \<and> seq \<noteq> [] then [delimiter] else [])
                  @ join_fields (map (\<lambda>v. csv_field (field_text v)) seq),
      num_fields = num_fields (append_field v w) + length seq\<rparr>"
    by (rule Cons.IH)
  also have "\<dots> =
     \<lparr>rec_buf = rec_buf w @ (if num_fields w > 0 \<and> v # seq \<noteq> [] then [delimiter] else [])
                  @ join_fields (map (\<lambda>v. csv_field (field_text v)) (v # seq)),
      num_fields = num_fields w + length (v # seq)\<rparr>"
    by (simp add: append_field_text join_fields_Cons)
  finally show ?case .
qed

lemma csv_field_empty_iff: "csv_field s = [] \<longleftrightarrow> s = []"
  by (auto simp: csv_field_def)

lemma join_fields_empty_iff:
  "join_fields fs = [] \<longleftrightarrow> fs = [] \<or> fs = [[]]"
  by (induction fs rule: join_fields.induct) auto

lemma csv_writerow_text:
  "csv_writerow outfile seq = outfile @ csv_record (map field_text seq) @ [CR, LF]"
proof -
  let ?w = "fold append_field seq join_reset"
  have w: "?w = \<lparr>rec_buf = join_fields (map (\<lambda>v. csv_field (field_text v)) seq),
                 num_fields = length seq\<rparr>"
    by (simp add: fold_append_field join_reset_def)
  have e: "(num_fields ?w > 0 \<and> rec_buf ?w = []) \<longleftrightarrow> map field_text seq = [[]]"
  proof -
    have "join_fields (map (\<lambda>v. csv_field (field_text v)) seq) = []
            \<longleftrightarrow> seq = [] \<or> map (\<lambda>v. csv_field (field_text v)) seq = [[]]"
      by (simp add: join_fields_empty_iff)
    moreover have "map (\<lambda>v. csv_field (field_text v)) seq = [[]] \<longleftrightarrow> map field_text seq = [[]]"
      by (cases seq) (auto simp: csv_field_empty_iff)
    ultimately show ?thesis
      unfolding w by (cases seq) auto
  qed
  show ?thesis
  proof (cases "map field_text seq = [[]]")
    case True
    with e have c: "num_fields ?w > 0 \<and> rec_buf ?w = []" by simp
    from True have "length (map field_text seq) = 1" by simp
    then have n: "num_fields ?w = 1" by (simp add: w)
    have "csv_writerow outfile seq = outfile @ [quotechar, quotechar] @ lineterminator"
      unfolding csv_writerow_def Let_def using c n
      by (simp add: join_append_def field_quoted_def Let_def)
    with True show ?thesis
      by (simp add: csv_record_def lineterminator_def)
  next
    case False
    with e have c: "\<not> (num_fields ?w > 0 \<and> rec_buf ?w = [])" by simp
    have "csv_writerow outfile seq = outfile @ rec_buf ?w @ lineterminator"
      by (simp only: csv_writerow_def Let_def if_not_P [OF c])
    with False show ?thesis
      by (simp add: w csv_record_def lineterminator_def comp_def)
  qed
qed

lemma fold_writerow:
  "fold (\<lambda>item out. DictWriter_writerow out fns item) items out =
     out @ concat (map (\<lambda>item. csv_record (map field_text (dict_to_list fns item)) @ [CR, LF]) items)"
  by (induction items arbitrary: out) (simp_all add: DictWriter_writerow_def csv_writerow_text)

lemma header_row: "dict_to_list fns (map_of (zip fns (map Str fns))) = map Str fns"
proof -
  have "map_of (zip fns (map Str fns)) k = Some (Str k)" if "k \<in> set fns" for k
  proof -
    have "zip fns (map Str fns) = map (\<lambda>k. (k, Str k)) fns"
      by (induction fns) auto
    then show ?thesis using that
      by (simp add: map_of_map_restrict)
  qed
  then show ?thesis
    by (simp add: dict_to_list_def)
qed

lemma serialize_to_csv_text:
  "serialize_to_csv items fns h =
     concat (map (\<lambda>row. csv_record (map field_text row) @ [CR, LF])
       ((if h then [map Str fns] else []) @ map (dict_to_list fns) items))"
proof -
  have hd: "DictWriter_writeheader [] fns = csv_record (map field_text (map Str fns)) @ [CR, LF]"
    by (simp add: DictWriter_writeheader_def DictWriter_writerow_def csv_writerow_text
          header_row)
  show ?thesis
    unfolding serialize_to_csv_def Let_def fold_writerow hd
    by (simp add: comp_def)
qed

lemma concat_rows_trailing:
  "rows \<noteq> [] \<Longrightarrow> \<exists>body. concat (map (\<lambda>row. g row @ [CR, LF]) rows) = body @ [CR, LF]"
proof (induction rows rule: rev_induct)
  case Nil
  then show ?case by simp
next
  case (snoc row rows)
  have "concat (map (\<lambda>row. g row @ [CR, LF]) (rows @ [row]))
          = (concat (map (\<lambda>row. g row @ [CR, LF]) rows) @ g row) @ [CR, LF]"
    by simp
  then show ?case by blast
qed

lemma dict_to_list_cong:
  "\<forall>key \<in> set fns. a key = b key \<Longrightarrow> dict_to_list fns a = dict_to_list fns b"
  by (simp add: dict_to_list_def)

text \<open>
  Claim C9. For every sequence of items and every \<open>field_names\<close>, the text of
  \<open>serialize_to_csv\<close> is one record per item (after the header record, when asked for),
  each followed by carriage return and line feed; a record holds the columns named in
  \<open>field_names\<close> and nothing else, so items that agree on these keys give the same text;
  a boolean is written as \<open>True\<close> or \<open>False\<close>; and whenever a record is written the
  text ends with the line terminator.
\<close>

theorem serialize_to_csv_rows:
  "serialize_to_csv items field_names include_headers =
     concat (map (\<lambda>row. csv_record (map field_text row) @ [CR, LF])
       ((if include_headers then [map Str field_names] else [])
        @ map (\<lambda>item. map (\<lambda>key. case item key of Some v \<Rightarrow> v | None \<Rightarrow> Str []) field_names)
            items))
   \<and> (list_all2 (\<lambda>a b. \<forall>key \<in> set field_names. a key = b key) items items' \<longrightarrow>
        serialize_to_csv items field_names include_headers
          = serialize_to_csv items' field_names include_headers)
   \<and> (\<forall>item key b. item key = Some (Bool b) \<longrightarrow>
        serialize_to_csv [item] [key] False = (if b then ''True'' else ''False'') @ [CR, LF])
   \<and> (include_headers \<or> items \<noteq> [] \<longrightarrow>
        (\<exists>body. serialize_to_csv items field_names include_headers = body @ [CR, LF]))"
proof (intro conjI allI impI)
  show "serialize_to_csv items field_names include_headers =
     concat (map (\<lambda>row. csv_record (map field_text row) @ [CR, LF])
       ((if include_headers then [map Str field_names] else [])
        @ map (\<lambda>item. map (\<lambda>key. case item key of Some v \<Rightarrow> v | None \<Rightarrow> Str []) field_names)
            items))"
    using serialize_to_csv_text [of items field_names include_headers]
    by (simp add: dict_to_list_def [abs_def])
next
  assume "list_all2 (\<lambda>a b. \<forall>key \<in> set field_names. a key = b key) items items'"
  then have "map (dict_to_list field_names) items = map (dict_to_list field_names) items'"
    by (induction rule: list_all2_induct) (auto intro: dict_to_list_cong)
  then show "serialize_to_csv items field_names include_headers
          = serialize_to_csv items' field_names include_headers"
    by (simp add: serialize_to_csv_text)
next
  fix item :: item and key b
  assume "item key = Some (Bool b)"
  then show "serialize_to_csv [item] [key] False = (if b then ''True'' else ''False'') @ [CR, LF]"
    by (simp add: serialize_to_csv_text dict_to_list_def field_text_def csv_record_def
          csv_field_def want_quote_def lineterminator_def)
next
  assume "include_headers \<or> items \<noteq> []"
  then have "(if include_headers then [map Str field_names] else [])
               @ map (dict_to_list field_names) items \<noteq> []"
    by auto
  from concat_rows_trailing [OF this]
  show "\<exists>body. serialize_to_csv items field_names include_headers = body @ [CR, LF]"
    by (simp only: serialize_to_csv_text)
qed

theorem serialize_to_csv_rows_witness:
  "serialize_to_csv
     [[''a'' \<mapsto> Str ''x,y'', ''b'' \<mapsto> Bool True, ''c'' \<mapsto> Str ''dropped''], [''a'' \<mapsto> NoneValue]]
     [''a'', ''b''] True
   = ''a,b'' @ [CR, LF] @ [quotechar] @ ''x,y'' @ [quotechar] @ '',True'' @ [CR, LF]
     @ '','' @ [CR, LF]"
  using serialize_to_csv_rows
    [of "[[''a'' \<mapsto> Str ''x,y'', ''b'' \<mapsto> Bool True, ''c'' \<mapsto> Str ''dropped''], [''a'' \<mapsto> NoneValue]]"
        "[''a'', ''b'']" True "[]"]
  by (simp add: csv_record_def csv_field_def field_text_def want_quote_def lineterminator_def)

section \<open>Writing and loading again\<close>

subsection \<open>Lines\<close>






subsection \<open>The parser on a written record\<close>









subsection \<open>The loader on written records\<close>













subsection \<open>Round trip\<close>




end
